theory Spec2Isabelle
  imports Main
begin

section \<open>The middleware dispatcher of lib/middle.js\<close>

text \<open>
  A shallow embedding of \<^verbatim>\<open>src/lib/middle.js\<close>: the registration function
  \<^verbatim>\<open>use\<close>, the dispatcher \<^verbatim>\<open>handle\<close> with its closure \<^verbatim>\<open>next\<close>, the invocation rule
  \<^verbatim>\<open>call\<close> and the helper \<^verbatim>\<open>getProtohost\<close>. Names follow the source; \<^verbatim>\<open>next\<close> and
  \<^verbatim>\<open>defer\<close> are Isar keywords and are named \<open>next_err\<close> and \<open>defer_done\<close>, \<^verbatim>\<open>proto.handle\<close> is
  \<open>proto_handle\<close> because \<open>handle\<close> is also a field of a layer.
\<close>

subsection \<open>JavaScript values and strings\<close>

text \<open>
  The values an \<^verbatim>\<open>err\<close> argument can hold. Numbers are the integers and NaN (every
  other number is truthy, as a non-zero integer is); \<open>JObj\<close> is any object, an
  \<^verbatim>\<open>Error\<close> instance for example, named by a number.
\<close>

datatype jsval = JUndefined | JNull | JBool bool | JNum int | JNaN | JStr string | JObj nat

text \<open>\<^verbatim>\<open>Boolean(v)\<close>: the falsy values are undefined, null, false, 0, NaN and the empty string.\<close>

fun Boolean :: "jsval \<Rightarrow> bool" where
  "Boolean JUndefined = False"
| "Boolean JNull = False"
| "Boolean (JBool b) = b"
| "Boolean (JNum n) = (n \<noteq> 0)"
| "Boolean JNaN = False"
| "Boolean (JStr s) = (s \<noteq> [])"
| "Boolean (JObj x) = True"

text \<open>
  Strings are lists of code units below 256. \<^verbatim>\<open>toLowerCase\<close> maps A-Z and the
  Latin-1 capitals (0xC0-0xDE without 0xD7) to the code unit 32 above, which sets bit 5.
\<close>

definition toLowerCase_char :: "char \<Rightarrow> char" where
  "toLowerCase_char c =
     (let n = (of_char c :: nat) in
      if (65 \<le> n \<and> n \<le> 90) \<or> (192 \<le> n \<and> n \<le> 222 \<and> n \<noteq> 215)
      then (case c of Char b0 b1 b2 b3 b4 b5 b6 b7 \<Rightarrow> Char b0 b1 b2 b3 b4 True b6 b7)
      else c)"

definition toLowerCase :: "string \<Rightarrow> string" where
  "toLowerCase s = map toLowerCase_char s"

text \<open>\<^verbatim>\<open>s.substr(start, length)\<close> and \<^verbatim>\<open>s.substr(start)\<close>, for indices that are not negative.\<close>

definition substr :: "string \<Rightarrow> nat \<Rightarrow> nat \<Rightarrow> string" where
  "substr s start len = take len (drop start s)"

definition substr_from :: "string \<Rightarrow> nat \<Rightarrow> string" where
  "substr_from s start = drop start s"

text \<open>
  \<^verbatim>\<open>s.indexOf(pat, from)\<close>: the first position at or after \<open>from\<close> where \<open>pat\<close> occurs;
  \<open>None\<close> stands for -1. \<open>indexOf_scan pat s i\<close> scans \<open>s\<close>, whose head is at position \<open>i\<close>.
\<close>

fun indexOf_scan :: "string \<Rightarrow> string \<Rightarrow> nat \<Rightarrow> nat option" where
  "indexOf_scan pat [] i = (if pat = [] then Some i else None)"
| "indexOf_scan pat (c # cs) i =
     (if take (length pat) (c # cs) = pat then Some i else indexOf_scan pat cs (Suc i))"

definition indexOf :: "string \<Rightarrow> string \<Rightarrow> nat \<Rightarrow> nat option" where
  "indexOf s pat from = indexOf_scan pat (drop (min from (length s)) s) (min from (length s))"

subsection \<open>getProtohost (lines 232-244)\<close>

text \<open>
  \<open>None\<close> is \<^verbatim>\<open>undefined\<close>. When no \<^verbatim>\<open>'/'\<close> follows the marker, \<^verbatim>\<open>indexOf\<close> is -1 and
  \<^verbatim>\<open>url.substr(0, -1)\<close> is the empty string.
\<close>

definition getProtohost :: "string \<Rightarrow> string option" where
  "getProtohost u =
     (if length u = 0 \<or> u ! 0 = CHR ''/'' then None
      else
        let searchIndex = indexOf u ''?'' 0;
            pathLength = (case searchIndex of Some i \<Rightarrow> i | None \<Rightarrow> length u);
            fqdnIndex = indexOf (substr u 0 pathLength) ''://'' 0
        in case fqdnIndex of
             Some f \<Rightarrow>
               Some (case indexOf u ''/'' (3 + f) of Some k \<Rightarrow> substr u 0 k | None \<Rightarrow> [])
           | None \<Rightarrow> None)"

subsection \<open>Requests, handlers, layers and the app\<close>

text \<open>The two fields of the request that the dispatcher reads and writes; \<open>None\<close> is an unset \<^verbatim>\<open>originalUrl\<close>.\<close>

record request =
  url :: string
  originalUrl :: "string option"

text \<open>
  A handler is a JavaScript function: its declared parameter count \<^verbatim>\<open>handle.length\<close> and
  what a call of it does. It is called with \<open>Some err\<close> as \<^verbatim>\<open>handle(err, req, res, next)\<close>
  and with \<open>None\<close> as \<^verbatim>\<open>handle(req, res, next)\<close>; it may change the request, and then
  either calls \<^verbatim>\<open>next(e)\<close> once (now or in a later turn), throws \<open>e\<close> before calling
  \<^verbatim>\<open>next\<close>, or returns without ever calling \<^verbatim>\<open>next\<close> (it ended the response).
\<close>

datatype outcome = CallsNext jsval | Throws jsval | Returns

record handler =
  arity :: nat
  body :: "jsval option \<Rightarrow> request \<Rightarrow> outcome \<times> request"

record layer =
  route :: string
  handle :: handler

record app =
  app_route :: string
  stack :: "layer list"

text \<open>\<^verbatim>\<open>createServer\<close> (lines 43-52).\<close>

definition createServer :: app where
  "createServer = \<lparr>app_route = ''/'', stack = []\<rparr>"

subsection \<open>call (lines 190-212)\<close>

text \<open>How a handler was invoked, and whether \<^verbatim>\<open>next\<close> is called afterwards and with what.\<close>

datatype invocation = ErrorHandler jsval | RequestHandler

datatype step = Advance jsval | Stop

definition hasError :: "jsval \<Rightarrow> bool" where
  "hasError err = (err = JBool False \<or> Boolean err)"

text \<open>
  The result is the invocation made (\<open>None\<close> when the handler was not invoked), the
  continuation (\<open>Advance e\<close>: \<^verbatim>\<open>next(e)\<close> is called, by the handler or by \<^verbatim>\<open>call\<close>
  itself after the catch or the fall-through) and the request as the handler left it.
\<close>

definition run_handler :: "handler \<Rightarrow> invocation \<Rightarrow> request \<Rightarrow> invocation option \<times> step \<times> request" where
  "run_handler h m rq =
     (case body h (case m of ErrorHandler e \<Rightarrow> Some e | RequestHandler \<Rightarrow> None) rq of
        (CallsNext e, rq') \<Rightarrow> (Some m, Advance e, rq')
      | (Throws e, rq') \<Rightarrow> (Some m, Advance e, rq')
      | (Returns, rq') \<Rightarrow> (Some m, Stop, rq'))"

definition call :: "handler \<Rightarrow> string \<Rightarrow> jsval \<Rightarrow> request \<Rightarrow> invocation option \<times> step \<times> request" where
  "call h rt err rq =
     (let ar = arity h;
          error = err;
          hasErr = hasError err
      in if hasErr \<and> ar = 4 then run_handler h (ErrorHandler err) rq
         else if \<not> hasErr \<and> ar < 4 then run_handler h RequestHandler rq
         else (None, Advance error, rq))"

subsection \<open>The walker: next (lines 126-180)\<close>

text \<open>
  What a dispatch does is recorded in order: \<open>Invoked i path how rq\<close> is the call of
  the handler of layer \<open>i\<close>, matched against \<open>path\<close>, with the request \<open>rq\<close> as passed to
  it; \<open>Terminal err\<close> is the call \<^verbatim>\<open>done(err)\<close>. The record is only written, never
  read: it does not change what the walker computes.
\<close>

datatype event = Invoked nat string invocation request | Terminal jsval

text \<open>
  The closure variables of \<^verbatim>\<open>handle\<close> that \<^verbatim>\<open>next\<close> changes, the request, the record of
  events, and the scheduler's queue: \<^verbatim>\<open>defer(done, err)\<close> appends the argument of the
  deferred call of \<^verbatim>\<open>done\<close>, and a later turn of the event loop runs the queue.
\<close>

record walker =
  index :: nat
  removed :: string
  slashAdded :: bool
  req :: request
  trace :: "event list"
  queue :: "jsval list"

definition defer_done :: "jsval \<Rightarrow> walker \<Rightarrow> walker" where
  "defer_done err w = w\<lparr>queue := queue w @ [err]\<rparr>"

definition turn :: "walker \<Rightarrow> walker" where
  "turn w = w\<lparr>trace := trace w @ map Terminal (queue w), queue := []\<rparr>"

text \<open>Lines 127-135: undo the synthetic slash and put the removed route back.\<close>

definition restore :: "string \<Rightarrow> walker \<Rightarrow> walker" where
  "restore protohost w =
     (let w1 = (if slashAdded w
                then w\<lparr>req := (req w)\<lparr>url := substr_from (url (req w)) 1\<rparr>, slashAdded := False\<rparr>
                else w)
      in if length (removed w1) \<noteq> 0
         then w1\<lparr>req := (req w1)\<lparr>url := protohost @ removed w1 @
                                      substr_from (url (req w1)) (length protohost)\<rparr>,
                 removed := []\<rparr>
         else w1)"

text \<open>Lines 166-176: trim off the part of the url that matches the route.\<close>

definition trim :: "string \<Rightarrow> string \<Rightarrow> walker \<Rightarrow> walker" where
  "trim protohost rt w =
     (if length rt \<noteq> 0 \<and> rt \<noteq> ''/''
      then
        let w1 = w\<lparr>removed := rt\<rparr>;
            w2 = w1\<lparr>req := (req w1)\<lparr>url := protohost @
                        substr_from (url (req w1)) (length protohost + length (removed w1))\<rparr>\<rparr>
        in if protohost = [] \<and> (url (req w2) = [] \<or> url (req w2) ! 0 \<noteq> CHR ''/'')
           then w2\<lparr>req := (req w2)\<lparr>url := CHR ''/'' # url (req w2)\<rparr>, slashAdded := True\<rparr>
           else w2
      else w)"

text \<open>
  Line 147: \<^verbatim>\<open>parseUrl(req).pathname || '/'\<close>. \<^verbatim>\<open>parseurl\<close> is a dependency; the model
  takes the pathname it computes from a url as the parameter \<open>pp\<close> (\<open>None\<close> is null).
\<close>

definition path_of :: "(string \<Rightarrow> string option) \<Rightarrow> request \<Rightarrow> string" where
  "path_of pp rq = (case pp (url rq) of None \<Rightarrow> ''/'' | Some p \<Rightarrow> if p = [] then ''/'' else p)"

text \<open>Lines 151-163: the two tests that skip a layer, negated.\<close>

definition route_matches :: "string \<Rightarrow> string \<Rightarrow> bool" where
  "route_matches rt path =
     (substr (toLowerCase path) 0 (length rt) = toLowerCase rt \<and>
      \<not> (length path > length rt \<and> path ! length rt \<noteq> CHR ''/'' \<and> path ! length rt \<noteq> CHR ''.''))"

function next_err ::
  "(string \<Rightarrow> string option) \<Rightarrow> layer list \<Rightarrow> string \<Rightarrow> walker \<Rightarrow> jsval \<Rightarrow> walker" where
  "next_err pp stk protohost w err =
     (let w1 = restore protohost w;
          i = index w1;
          w2 = w1\<lparr>index := i + 1\<rparr>
      in if \<not> i < length stk then defer_done err w2
         else
           let l = stk ! i;
               path = path_of pp (req w2);
               rt = route l
           in if \<not> route_matches rt path then next_err pp stk protohost w2 err
              else
                let w3 = trim protohost rt w2
                in case call (handle l) rt err (req w3) of
                     (m, st, rq') \<Rightarrow>
                       let w4 = w3\<lparr>req := rq',
                                   trace := trace w3 @
                                     (case m of None \<Rightarrow> [] | Some how \<Rightarrow> [Invoked i path how (req w3)])\<rparr>
                       in (case st of Advance e \<Rightarrow> next_err pp stk protohost w4 e | Stop \<Rightarrow> w4))"
  by pat_completeness auto
termination
proof -
  have restore_index: "index (restore ph w) = index w" for ph w
    by (simp add: restore_def Let_def)
  have trim_index: "index (trim ph rt w) = index w" for ph rt w
    by (simp add: trim_def Let_def)
  show ?thesis
    by (relation "measure (\<lambda>(pp, stk, protohost, w, err). Suc (length stk) - index w)")
       (auto simp: restore_index trim_index)
qed

declare next_err.simps [simp del]

subsection \<open>handle (lines 108-183)\<close>

text \<open>
  The terminal \<^verbatim>\<open>done\<close> is the caller's \<^verbatim>\<open>out\<close> or the default final handler; either
  way its call is the \<open>Terminal\<close> event. Line 124 stores the original url.
\<close>

definition proto_handle :: "(string \<Rightarrow> string option) \<Rightarrow> app \<Rightarrow> request \<Rightarrow> walker" where
  "proto_handle pp this rq =
     (let protohost = (case getProtohost (url rq) of None \<Rightarrow> [] | Some p \<Rightarrow> p);
          rq1 = rq\<lparr>originalUrl :=
                  (case originalUrl rq of
                     None \<Rightarrow> Some (url rq)
                   | Some orig \<Rightarrow> if orig \<noteq> [] then Some orig else Some (url rq))\<rparr>
      in next_err pp (stack this) protohost
           \<lparr>index = 0, removed = [], slashAdded = False, req = rq1, trace = [], queue = []\<rparr>
           JUndefined)"

subsection \<open>use (lines 71-99)\<close>

text \<open>
  The middleware given to \<^verbatim>\<open>use\<close> is a function or a sub-app (an object with a
  \<^verbatim>\<open>handle\<close> method). A sub-app is wrapped in \<^verbatim>\<open>handleFn(req, res, next)\<close>, which runs
  the sub-app's dispatch with the outer \<^verbatim>\<open>next\<close> as its \<^verbatim>\<open>out\<close>: the outer \<^verbatim>\<open>next\<close> is
  called with the error the sub-app deferred, if its walk came to the end of its stack.
  The wrapper holds the sub-app as it is when mounted.
\<close>

datatype middleware = Fn handler | Server app

definition handleFn :: "(string \<Rightarrow> string option) \<Rightarrow> app \<Rightarrow> handler" where
  "handleFn pp server =
     \<lparr>arity = 3,
      body = (\<lambda>args rq.
        let w = proto_handle pp server rq
        in (case queue w of [] \<Rightarrow> Returns | e # es \<Rightarrow> CallsNext e, req w))\<rparr>"

text \<open>
  The first argument is \<open>Some path\<close> for \<^verbatim>\<open>use(path, fn)\<close> and \<open>None\<close> for \<^verbatim>\<open>use(fn)\<close>,
  where \<^verbatim>\<open>typeof route !== 'string'\<close>.
\<close>

definition use :: "(string \<Rightarrow> string option) \<Rightarrow> app \<Rightarrow> string option \<Rightarrow> middleware \<Rightarrow> app" where
  "use pp this rt fn =
     (let path = (case rt of Some p \<Rightarrow> p | None \<Rightarrow> ''/'');
          hdl = (case fn of
                   Server server \<Rightarrow> handleFn pp (server\<lparr>app_route := path\<rparr>)
                 | Fn f \<Rightarrow> f);
          path = (if path \<noteq> [] \<and> path ! (length path - 1) = CHR ''/'' then butlast path else path)
      in this\<lparr>stack := stack this @ [\<lparr>route = path, handle = hdl\<rparr>]\<rparr>)"

subsection \<open>The pathname of a url\<close>

text \<open>
  Modelled from the spec: \<^verbatim>\<open>parseurl\<close> is a dependency that is not under src/. Section
  4.2, step 4 reads its result as the request's path component, excluding the query
  string; for an absolute-form url the path component starts after the scheme and
  authority.
\<close>

definition pathname :: "string \<Rightarrow> string option" where
  "pathname u =
     Some (takeWhile (\<lambda>c. c \<noteq> CHR ''?'')
       (drop (length (case getProtohost u of None \<Rightarrow> [] | Some p \<Rightarrow> p)) u))"

subsection \<open>Example handlers\<close>

text \<open>
  \<^verbatim>\<open>function (req, res, next) { next() }\<close>,
  \<^verbatim>\<open>function (req, res, next) { throw e }\<close>,
  \<^verbatim>\<open>function (err, req, res, next) { res.end() }\<close> and
  \<^verbatim>\<open>function (req, res, next) { req.url = u; next() }\<close>.
\<close>

definition pass :: handler where
  "pass = \<lparr>arity = 3, body = (\<lambda>args rq. (CallsNext JUndefined, rq))\<rparr>"

definition thrower :: "jsval \<Rightarrow> handler" where
  "thrower e = \<lparr>arity = 3, body = (\<lambda>args rq. (Throws e, rq))\<rparr>"

definition on_error :: handler where
  "on_error = \<lparr>arity = 4, body = (\<lambda>args rq. (Returns, rq))\<rparr>"

definition rewrite_to :: "string \<Rightarrow> handler" where
  "rewrite_to u = \<lparr>arity = 3, body = (\<lambda>args rq. (CallsNext JUndefined, rq\<lparr>url := u\<rparr>))\<rparr>"

subsection \<open>Vocabulary of the statements\<close>

text \<open>
  The walker after lines 127-138 of an advance (url restored, index incremented), and
  after the handler of the layer at \<open>index w\<close>, matched on \<open>path\<close>, was called through
  \<^verbatim>\<open>call\<close> with the result \<open>(m, st, rq')\<close>.
\<close>

definition advanced :: "string \<Rightarrow> walker \<Rightarrow> walker" where
  "advanced ph w = (restore ph w)\<lparr>index := index w + 1\<rparr>"

definition entered ::
  "string \<Rightarrow> string \<Rightarrow> string \<Rightarrow> walker \<Rightarrow> invocation option \<Rightarrow> request \<Rightarrow> walker" where
  "entered ph rt path w m rq' =
     (let w3 = trim ph rt (advanced ph w)
      in w3\<lparr>req := rq',
            trace := trace w3 @
              (case m of None \<Rightarrow> [] | Some how \<Rightarrow> [Invoked (index w) path how (req w3)])\<rparr>)"

text \<open>
  The path lies under the route: it starts with the route, case-insensitively, and
  where it is longer the character after the route is a slash or a dot.
\<close>

definition path_under :: "string \<Rightarrow> string \<Rightarrow> bool" where
  "path_under rt path =
     (take (length rt) (toLowerCase path) = toLowerCase rt \<and>
      (length rt < length path \<longrightarrow>
         path ! length rt = CHR ''/'' \<or> path ! length rt = CHR ''.''))"

text \<open>\<open>pat\<close> occurs in \<open>s\<close> at position \<open>i\<close>.\<close>

definition occurs_at :: "string \<Rightarrow> string \<Rightarrow> nat \<Rightarrow> bool" where
  "occurs_at pat s i = (take (length pat) (drop i s) = pat)"

text \<open>
  A handler keeps the original url when it never changes an \<^verbatim>\<open>originalUrl\<close> that is a
  non-empty string; it leaves the original url alone when it never changes the field.
\<close>

definition keeps_original :: "handler \<Rightarrow> bool" where
  "keeps_original h =
     (\<forall>args rq orig. originalUrl rq = Some orig \<and> orig \<noteq> [] \<longrightarrow>
        originalUrl (snd (body h args rq)) = Some orig)"

definition leaves_original :: "handler \<Rightarrow> bool" where
  "leaves_original h = (\<forall>args rq. originalUrl (snd (body h args rq)) = originalUrl rq)"

section \<open>The invocation rule\<close>

lemma run_handler_fst: "fst (run_handler h m rq) = Some m"
  by (simp add: run_handler_def split: prod.splits outcome.splits)

lemma run_handler_req:
  "snd (snd (run_handler h m rq)) =
   snd (body h (case m of ErrorHandler e \<Rightarrow> Some e | RequestHandler \<Rightarrow> None) rq)"
  by (simp add: run_handler_def split: prod.splits outcome.splits)

lemma hasError_iff: "hasError err = (err \<notin> {JUndefined, JNull, JNum 0, JNaN, JStr []})"
  by (cases err) (auto simp: hasError_def)

text \<open>
  C3. With a pending error (\<open>hasError\<close>, as \<^verbatim>\<open>call\<close> computes it) the handler is invoked
  if and only if its arity is exactly 4, and then as \<^verbatim>\<open>handle(err, req, res, next)\<close>;
  with no pending error it is invoked if and only if its arity is below 4, and then as
  \<^verbatim>\<open>handle(req, res, next)\<close>. When it is not invoked the request is untouched and
  \<^verbatim>\<open>next\<close> is called with the same error.
\<close>

theorem call_arity_dispatch:
  "(hasError err \<longrightarrow>
      fst (call h rt err rq) = (if arity h = 4 then Some (ErrorHandler err) else None)) \<and>
   (\<not> hasError err \<longrightarrow>
      fst (call h rt err rq) = (if arity h < 4 then Some RequestHandler else None)) \<and>
   (fst (call h rt err rq) = Some (ErrorHandler err) \<longrightarrow>
      snd (snd (call h rt err rq)) = snd (body h (Some err) rq)) \<and>
   (fst (call h rt err rq) = Some RequestHandler \<longrightarrow>
      snd (snd (call h rt err rq)) = snd (body h None rq)) \<and>
   (fst (call h rt err rq) = None \<longrightarrow> call h rt err rq = (None, Advance err, rq))"
  by (auto simp: call_def Let_def run_handler_fst run_handler_req)

theorem call_arity_dispatch_witness:
  "hasError (JObj 1) \<and>
   fst (call on_error ''/x'' (JObj 1) \<lparr>url = ''/'', originalUrl = None\<rparr>) =
     Some (ErrorHandler (JObj 1)) \<and>
   fst (call pass ''/x'' (JObj 1) \<lparr>url = ''/'', originalUrl = None\<rparr>) = None \<and>
   call pass ''/x'' (JObj 1) \<lparr>url = ''/'', originalUrl = None\<rparr> =
     (None, Advance (JObj 1), \<lparr>url = ''/'', originalUrl = None\<rparr>)"
  using call_arity_dispatch [of "JObj 1" on_error "''/x''" "\<lparr>url = ''/'', originalUrl = None\<rparr>"]
    call_arity_dispatch [of "JObj 1" pass "''/x''" "\<lparr>url = ''/'', originalUrl = None\<rparr>"]
  by (simp add: hasError_def on_error_def pass_def)

text \<open>
  C4, as stated, fails: \<^verbatim>\<open>null\<close> is not \<^verbatim>\<open>undefined\<close>, yet \<^verbatim>\<open>call\<close> finds no pending
  error in it and does not invoke an error handler.
\<close>

theorem hasError_null_counterexample:
  "JNull \<noteq> JUndefined \<and> \<not> hasError JNull \<and>
   call on_error ''/x'' JNull \<lparr>url = ''/'', originalUrl = None\<rparr> =
     (None, Advance JNull, \<lparr>url = ''/'', originalUrl = None\<rparr>)"
  by (simp add: hasError_def call_def on_error_def)

text \<open>
  C4, amended. The invocation proceeds in error mode exactly when \<^verbatim>\<open>err\<close> is \<^verbatim>\<open>false\<close> or
  truthy, that is for every value but \<^verbatim>\<open>undefined\<close>, \<^verbatim>\<open>null\<close>, \<^verbatim>\<open>0\<close>, \<^verbatim>\<open>NaN\<close> and
  the empty string; for these five it proceeds in normal mode.
\<close>

theorem call_error_mode:
  "(fst (call h rt err rq) = Some (ErrorHandler err)) =
     (arity h = 4 \<and> err \<notin> {JUndefined, JNull, JNum 0, JNaN, JStr []}) \<and>
   (fst (call h rt err rq) = Some RequestHandler) =
     (arity h < 4 \<and> err \<in> {JUndefined, JNull, JNum 0, JNaN, JStr []})"
  by (auto simp: call_def Let_def run_handler_fst hasError_iff)

theorem call_error_mode_witness:
  "fst (call on_error ''/x'' (JBool False) \<lparr>url = ''/'', originalUrl = None\<rparr>) =
     Some (ErrorHandler (JBool False)) \<and>
   fst (call pass ''/x'' (JNum 0) \<lparr>url = ''/'', originalUrl = None\<rparr>) = Some RequestHandler"
  using call_error_mode [of on_error "''/x''" "JBool False" "\<lparr>url = ''/'', originalUrl = None\<rparr>"]
    call_error_mode [of pass "''/x''" "JNum 0" "\<lparr>url = ''/'', originalUrl = None\<rparr>"]
  by (simp add: on_error_def pass_def)

section \<open>Unfolding the walker\<close>

lemma restore_index: "index (restore ph w) = index w"
  by (simp add: restore_def Let_def)

lemma trim_index: "index (trim ph rt w) = index w"
  by (simp add: trim_def Let_def)

lemma advanced_index: "index (advanced ph w) = Suc (index w)"
  by (simp add: advanced_def)

lemma entered_index: "index (entered ph rt path w m rq') = Suc (index w)"
  by (simp add: entered_def Let_def trim_index advanced_index)

lemma advanced_req: "req (advanced ph w) = req (restore ph w)"
  by (simp add: advanced_def)

lemma entered_req: "req (entered ph rt path w m rq') = rq'"
  by (simp add: entered_def Let_def)

lemma next_err_end:
  "\<not> index w < length stk \<Longrightarrow> next_err pp stk ph w err = defer_done err (advanced ph w)"
  by (subst next_err.simps) (simp add: Let_def restore_index advanced_def)

lemma next_err_skip:
  "index w < length stk \<Longrightarrow>
   \<not> route_matches (route (stk ! index w)) (path_of pp (req (restore ph w))) \<Longrightarrow>
   next_err pp stk ph w err = next_err pp stk ph (advanced ph w) err"
  by (subst next_err.simps) (simp add: Let_def restore_index advanced_def)

lemma next_err_call:
  "index w < length stk \<Longrightarrow>
   route_matches (route (stk ! index w)) (path_of pp (req (restore ph w))) \<Longrightarrow>
   call (handle (stk ! index w)) (route (stk ! index w)) err
     (req (trim ph (route (stk ! index w)) (advanced ph w))) = (m, st, rq') \<Longrightarrow>
   next_err pp stk ph w err =
     (case st of
        Advance e \<Rightarrow>
          next_err pp stk ph
            (entered ph (route (stk ! index w)) (path_of pp (req (restore ph w))) w m rq') e
      | Stop \<Rightarrow> entered ph (route (stk ! index w)) (path_of pp (req (restore ph w))) w m rq')"
  by (subst next_err.simps, cases st; cases m)
     (simp_all add: Let_def restore_index advanced_def entered_def)

text \<open>Induction along a walk: the three ways an advance goes on.\<close>

lemma walk_induct [case_names End Skip Call]:
  assumes e: "\<And>w err. \<not> index w < length stk \<Longrightarrow> P w err"
    and s: "\<And>w err. index w < length stk \<Longrightarrow>
              \<not> route_matches (route (stk ! index w)) (path_of pp (req (restore ph w))) \<Longrightarrow>
              P (advanced ph w) err \<Longrightarrow> P w err"
    and c: "\<And>w err m st rq'. index w < length stk \<Longrightarrow>
              route_matches (route (stk ! index w)) (path_of pp (req (restore ph w))) \<Longrightarrow>
              call (handle (stk ! index w)) (route (stk ! index w)) err
                (req (trim ph (route (stk ! index w)) (advanced ph w))) = (m, st, rq') \<Longrightarrow>
              (\<And>e. st = Advance e \<Longrightarrow>
                 P (entered ph (route (stk ! index w)) (path_of pp (req (restore ph w))) w m rq') e) \<Longrightarrow>
              P w err"
  shows "P w err"
proof (induction "length stk - index w" arbitrary: w err rule: less_induct)
  case (less w err)
  show ?case
  proof (cases "index w < length stk")
    case False
    then show ?thesis by (rule e)
  next
    case True
    show ?thesis
    proof (cases "route_matches (route (stk ! index w)) (path_of pp (req (restore ph w)))")
      case False
      have "P (advanced ph w) err"
        by (rule less) (use True in \<open>simp add: advanced_index\<close>)
      with True False show ?thesis by (rule s)
    next
      case m: True
      obtain m' st rq' where cl:
        "call (handle (stk ! index w)) (route (stk ! index w)) err
           (req (trim ph (route (stk ! index w)) (advanced ph w))) = (m', st, rq')"
        by (metis prod_cases3)
      show ?thesis
      proof (rule c [OF True m cl])
        fix e
        show "P (entered ph (route (stk ! index w)) (path_of pp (req (restore ph w))) w m' rq') e"
          by (rule less) (use True in \<open>simp add: entered_index\<close>)
      qed
    qed
  qed
qed

section \<open>The original url\<close>

lemma restore_originalUrl: "originalUrl (req (restore ph w)) = originalUrl (req w)"
  by (simp add: restore_def Let_def)

lemma trim_originalUrl: "originalUrl (req (trim ph rt w)) = originalUrl (req w)"
  by (simp add: trim_def Let_def)

lemma call_req_cases:
  "snd (snd (call h rt err rq)) = rq \<or>
   (\<exists>args. snd (snd (call h rt err rq)) = snd (body h args rq))"
  by (auto simp: call_def Let_def run_handler_req)

lemma call_keeps_original:
  "keeps_original h \<Longrightarrow> originalUrl rq = Some orig \<Longrightarrow> orig \<noteq> [] \<Longrightarrow>
   call h rt err rq = (m, st, rq') \<Longrightarrow> originalUrl rq' = Some orig"
  using call_req_cases [of h rt err rq] by (auto simp: keeps_original_def)

lemma call_leaves_original:
  "leaves_original h \<Longrightarrow> call h rt err rq = (m, st, rq') \<Longrightarrow> originalUrl rq' = originalUrl rq"
  using call_req_cases [of h rt err rq] by (auto simp: leaves_original_def)

lemma next_err_keeps_original:
  assumes k: "\<forall>l \<in> set stk. keeps_original (handle l)" and ne: "orig \<noteq> []"
  shows "originalUrl (req w) = Some orig \<Longrightarrow>
         originalUrl (req (next_err pp stk ph w err)) = Some orig"
proof (induction w err rule: walk_induct [where stk = stk and pp = pp and ph = ph])
  case (End w err)
  then show ?case
    by (simp add: next_err_end defer_done_def advanced_req restore_originalUrl)
next
  case (Skip w err)
  then show ?case by (simp add: next_err_skip advanced_req restore_originalUrl)
next
  case (Call w err m st rq')
  have h: "keeps_original (handle (stk ! index w))" using k Call.hyps(1) by simp
  have o: "originalUrl rq' = Some orig"
    by (rule call_keeps_original [OF h _ ne Call.hyps(3)])
       (simp add: trim_originalUrl advanced_req restore_originalUrl Call.prems)
  show ?case
    using Call.IH o by (cases st) (simp_all add: next_err_call [OF Call.hyps] entered_req)
qed

lemma next_err_leaves_original:
  assumes k: "\<forall>l \<in> set stk. leaves_original (handle l)"
  shows "originalUrl (req (next_err pp stk ph w err)) = originalUrl (req w)"
proof (induction w err rule: walk_induct [where stk = stk and pp = pp and ph = ph])
  case (End w err)
  then show ?case
    by (simp add: next_err_end defer_done_def advanced_req restore_originalUrl)
next
  case (Skip w err)
  then show ?case by (simp add: next_err_skip advanced_req restore_originalUrl)
next
  case (Call w err m st rq')
  have h: "leaves_original (handle (stk ! index w))" using k Call.hyps(1) by simp
  have o: "originalUrl rq' = originalUrl (req w)"
    using call_leaves_original [OF h Call.hyps(3)]
    by (simp add: trim_originalUrl advanced_req restore_originalUrl)
  show ?case
    using Call.IH o by (cases st) (simp_all add: next_err_call [OF Call.hyps] entered_req)
qed

text \<open>
  C9, as stated, fails. A request whose \<^verbatim>\<open>originalUrl\<close> is already set to the empty
  string has it overwritten by \<^verbatim>\<open>handle\<close>. So also in a nested dispatch: for the
  request url \<^verbatim>\<open>''\<close> the outer dispatch captures \<^verbatim>\<open>''\<close>, the first handler sets the url
  to \<^verbatim>\<open>/foo\<close>, and the dispatch of the mounted sub-app then overwrites the captured
  value with \<^verbatim>\<open>/foo\<close>.
\<close>

theorem originalUrl_overwritten_counterexample:
  "originalUrl (req (proto_handle pathname createServer
      \<lparr>url = ''/x'', originalUrl = Some []\<rparr>)) = Some ''/x'' \<and>
   trace (proto_handle pathname
     (use pathname (use pathname createServer None (Fn (rewrite_to ''/foo''))) None
        (Server createServer))
     \<lparr>url = [], originalUrl = None\<rparr>) =
     [Invoked 0 ''/'' RequestHandler \<lparr>url = [], originalUrl = Some []\<rparr>,
      Invoked 1 ''/foo'' RequestHandler \<lparr>url = ''/foo'', originalUrl = Some []\<rparr>] \<and>
   originalUrl (req (proto_handle pathname
     (use pathname (use pathname createServer None (Fn (rewrite_to ''/foo''))) None
        (Server createServer))
     \<lparr>url = [], originalUrl = None\<rparr>)) = Some ''/foo''"
  by code_simp

text \<open>
  C9, amended. \<^verbatim>\<open>handle\<close> sets \<^verbatim>\<open>originalUrl\<close> to the current url only if it is unset
  or the empty string. Once it holds a non-empty string, no dispatch overwrites it:
  not this one, when its handlers keep the original url, and not a nested one, since a
  mounted sub-app is again a handler that keeps it.
\<close>

theorem originalUrl_set_once:
  assumes "\<forall>l \<in> set (stack this). keeps_original (handle l)"
  shows "(originalUrl rq = Some orig \<and> orig \<noteq> [] \<longrightarrow>
           originalUrl (req (proto_handle pp this rq)) = Some orig) \<and>
         (originalUrl rq = None \<and> url rq \<noteq> [] \<longrightarrow>
           originalUrl (req (proto_handle pp this rq)) = Some (url rq)) \<and>
         keeps_original (handleFn pp this)"
proof -
  have a: "originalUrl (req (proto_handle pp this r)) = Some x"
    if "originalUrl r = Some x" "x \<noteq> []" for r x
    unfolding proto_handle_def Let_def
    by (rule next_err_keeps_original [OF assms that(2)]) (simp add: that)
  have b: "originalUrl (req (proto_handle pp this r)) = Some (url r)"
    if "originalUrl r = None" "url r \<noteq> []" for r
    unfolding proto_handle_def Let_def
    by (rule next_err_keeps_original [OF assms that(2)]) (simp add: that)
  have c: "keeps_original (handleFn pp this)"
    by (simp add: keeps_original_def handleFn_def Let_def a)
  from a b c show ?thesis by blast
qed

theorem originalUrl_set_once_witness:
  "keeps_original pass \<and>
   originalUrl (req (proto_handle pathname
     (use pathname createServer (Some ''/api'')
        (Server (use pathname createServer None (Fn pass))))
     \<lparr>url = ''/api/x'', originalUrl = None\<rparr>)) = Some ''/api/x'' \<and>
   originalUrl (req (proto_handle pathname
     (use pathname createServer (Some ''/api'')
        (Server (use pathname createServer None (Fn pass))))
     \<lparr>url = ''/api/x'', originalUrl = Some ''/first''\<rparr>)) = Some ''/first''"
proof -
  let ?sub = "(use pathname createServer None (Fn pass))\<lparr>app_route := ''/api''\<rparr>"
  let ?app = "use pathname createServer (Some ''/api'')
                (Server (use pathname createServer None (Fn pass)))"
  have 1: "keeps_original pass" by (simp add: keeps_original_def pass_def)
  have 2: "keeps_original (handleFn pathname ?sub)"
    using originalUrl_set_once [of ?sub _ _ pathname] 1 by (simp add: use_def createServer_def)
  have 3: "\<forall>l \<in> set (stack ?app). keeps_original (handle l)"
    using 2 by (simp add: use_def createServer_def Let_def)
  show ?thesis
    using 1 originalUrl_set_once [OF 3, of "\<lparr>url = ''/api/x'', originalUrl = None\<rparr>" _ pathname]
      originalUrl_set_once [OF 3, of "\<lparr>url = ''/api/x'', originalUrl = Some ''/first''\<rparr>"
        "''/first''" pathname]
    by simp
qed

text \<open>
  C10. When \<^verbatim>\<open>originalUrl\<close> is set to the empty string, \<^verbatim>\<open>handle\<close> overwrites it with
  the current url; a non-empty value is kept. The handlers of the stack leave the field
  alone, so the final value is the one line 124 stored.
\<close>

theorem originalUrl_falsy_overwritten:
  assumes "\<forall>l \<in> set (stack this). leaves_original (handle l)"
  shows "(originalUrl rq = Some [] \<longrightarrow>
            originalUrl (req (proto_handle pp this rq)) = Some (url rq)) \<and>
         (originalUrl rq = Some orig \<and> orig \<noteq> [] \<longrightarrow>
            originalUrl (req (proto_handle pp this rq)) = Some orig)"
  unfolding proto_handle_def Let_def
  by (simp add: next_err_leaves_original [OF assms])

theorem originalUrl_falsy_overwritten_witness:
  "leaves_original pass \<and>
   originalUrl (req (proto_handle pathname (use pathname createServer None (Fn pass))
      \<lparr>url = ''/x'', originalUrl = Some []\<rparr>)) = Some ''/x'' \<and>
   originalUrl (req (proto_handle pathname (use pathname createServer None (Fn pass))
      \<lparr>url = ''/x'', originalUrl = Some ''/first''\<rparr>)) = Some ''/first''"
proof -
  let ?app = "use pathname createServer None (Fn pass)"
  have 1: "leaves_original pass" by (simp add: leaves_original_def pass_def)
  have 3: "\<forall>l \<in> set (stack ?app). leaves_original (handle l)"
    using 1 by (simp add: use_def createServer_def)
  show ?thesis
    using 1
      originalUrl_falsy_overwritten [OF 3, of "\<lparr>url = ''/x'', originalUrl = Some []\<rparr>" pathname]
      originalUrl_falsy_overwritten [OF 3, of "\<lparr>url = ''/x'', originalUrl = Some ''/first''\<rparr>"
        pathname "''/first''"]
    by simp
qed

section \<open>Registration\<close>

lemma strip_trailing_slash:
  "(if p \<noteq> [] \<and> p ! (length p - 1) = CHR ''/'' then butlast p else p) =
   (if p = ''/'' then [] else if length p > 1 \<and> last p = CHR ''/'' then butlast p else p)"
proof (cases p)
  case Nil
  then show ?thesis by simp
next
  case (Cons c cs)
  then have l: "p ! (length p - 1) = last p" by (simp add: last_conv_nth)
  show ?thesis
  proof (cases cs)
    case Nil
    with Cons show ?thesis by auto
  next
    case (Cons d ds)
    with \<open>p = c # cs\<close> l show ?thesis by auto
  qed
qed

lemma use_stack:
  "stack (use pp this rt fn) =
     stack this @
       [\<lparr>route = (case rt of None \<Rightarrow> []
                  | Some p \<Rightarrow> if p = ''/'' then []
                             else if length p > 1 \<and> last p = CHR ''/'' then butlast p else p),
         handle = (case fn of
                     Fn f \<Rightarrow> f
                   | Server sub \<Rightarrow>
                       handleFn pp (sub\<lparr>app_route := (case rt of None \<Rightarrow> ''/'' | Some p \<Rightarrow> p)\<rparr>))\<rparr>]"
proof (cases rt)
  case None
  then show ?thesis by (cases fn) (simp_all add: use_def Let_def)
next
  case (Some p)
  then show ?thesis
    unfolding use_def Let_def strip_trailing_slash by (cases fn) simp_all
qed

text \<open>
  C7. \<^verbatim>\<open>use\<close> appends one layer to the stack and changes nothing else. The route of the
  layer is the path without its trailing slash when the path is longer than one
  character, the empty string for the root path \<^verbatim>\<open>/\<close>, and the path itself otherwise;
  with no string path the path is \<^verbatim>\<open>/\<close> (a sub-app's route is set to it) and the route
  stored is the empty string. The handle is the function given, or the wrapper of the
  sub-app.
\<close>

theorem use_appends_normalized:
  "stack (use pp this (Some p) (Fn f)) =
     stack this @
       [\<lparr>route = (if p = ''/'' then []
                  else if length p > 1 \<and> last p = CHR ''/'' then butlast p else p),
         handle = f\<rparr>] \<and>
   stack (use pp this None (Fn f)) = stack this @ [\<lparr>route = [], handle = f\<rparr>] \<and>
   stack (use pp this (Some p) (Server sub)) =
     stack this @
       [\<lparr>route = (if p = ''/'' then []
                  else if length p > 1 \<and> last p = CHR ''/'' then butlast p else p),
         handle = handleFn pp (sub\<lparr>app_route := p\<rparr>)\<rparr>] \<and>
   stack (use pp this None (Server sub)) =
     stack this @ [\<lparr>route = [], handle = handleFn pp (sub\<lparr>app_route := ''/''\<rparr>)\<rparr>] \<and>
   butlast (stack (use pp this rt fn)) = stack this \<and>
   app_route (use pp this rt fn) = app_route this"
  by (simp add: use_stack) (simp add: use_def Let_def)

theorem use_appends_normalized_witness:
  "stack (use pathname
            (use pathname (use pathname createServer (Some ''/admin/'') (Fn pass))
               (Some ''/'') (Fn on_error))
            None (Fn pass)) =
    [\<lparr>route = ''/admin'', handle = pass\<rparr>, \<lparr>route = [], handle = on_error\<rparr>,
     \<lparr>route = [], handle = pass\<rparr>]"
  using use_appends_normalized [of pathname createServer "''/admin/''" pass]
    use_appends_normalized [of pathname "use pathname createServer (Some ''/admin/'') (Fn pass)"
      "''/''" on_error]
    use_appends_normalized [of pathname
      "use pathname (use pathname createServer (Some ''/admin/'') (Fn pass)) (Some ''/'') (Fn on_error)"
      _ pass]
  by (simp add: createServer_def)

section \<open>getProtohost\<close>

lemma occurs_at_Cons: "occurs_at pat (c # cs) (Suc j) = occurs_at pat cs j"
  by (simp add: occurs_at_def)

lemma occurs_at_Nil: "pat \<noteq> [] \<Longrightarrow> \<not> occurs_at pat [] j"
  by (auto simp: occurs_at_def)

lemma indexOf_scan_None:
  "pat \<noteq> [] \<Longrightarrow> (indexOf_scan pat s i = None) = (\<forall>j. \<not> occurs_at pat s j)"
proof (induction s arbitrary: i)
  case Nil
  then show ?case by (simp add: occurs_at_Nil)
next
  case (Cons c cs)
  show ?case
  proof (cases "take (length pat) (c # cs) = pat")
    case True
    then have "occurs_at pat (c # cs) 0" by (simp add: occurs_at_def)
    with True show ?thesis by auto
  next
    case False
    then have z: "\<not> occurs_at pat (c # cs) 0" by (simp add: occurs_at_def)
    have "(\<forall>j. \<not> occurs_at pat (c # cs) j) = (\<forall>j. \<not> occurs_at pat cs j)"
    proof
      assume a: "\<forall>j. \<not> occurs_at pat (c # cs) j"
      show "\<forall>j. \<not> occurs_at pat cs j"
      proof
        fix j from a have "\<not> occurs_at pat (c # cs) (Suc j)" by blast
        then show "\<not> occurs_at pat cs j" by (simp add: occurs_at_Cons)
      qed
    next
      assume a: "\<forall>j. \<not> occurs_at pat cs j"
      show "\<forall>j. \<not> occurs_at pat (c # cs) j"
      proof
        fix j show "\<not> occurs_at pat (c # cs) j"
          using z a by (cases j) (simp_all add: occurs_at_Cons)
      qed
    qed
    with False Cons show ?thesis by simp
  qed
qed

lemma indexOf_scan_Some:
  "pat \<noteq> [] \<Longrightarrow>
   (indexOf_scan pat s i = Some k) =
   (i \<le> k \<and> occurs_at pat s (k - i) \<and> (\<forall>j < k - i. \<not> occurs_at pat s j))"
proof (induction s arbitrary: i)
  case Nil
  then show ?case by (simp add: occurs_at_Nil)
next
  case (Cons c cs)
  show ?case
  proof (cases "take (length pat) (c # cs) = pat")
    case True
    then have o: "occurs_at pat (c # cs) 0" by (simp add: occurs_at_def)
    have "(i \<le> k \<and> occurs_at pat (c # cs) (k - i) \<and> (\<forall>j < k - i. \<not> occurs_at pat (c # cs) j)) = (k = i)"
      using o by (cases "k - i") auto
    with True show ?thesis by auto
  next
    case False
    then have z: "\<not> occurs_at pat (c # cs) 0" by (simp add: occurs_at_def)
    have "(i \<le> k \<and> occurs_at pat (c # cs) (k - i) \<and> (\<forall>j < k - i. \<not> occurs_at pat (c # cs) j)) =
          (Suc i \<le> k \<and> occurs_at pat cs (k - Suc i) \<and> (\<forall>j < k - Suc i. \<not> occurs_at pat cs j))"
      (is "?L = ?R")
    proof
      assume l: ?L
      with z have "k - i \<noteq> 0" by (metis)
      then obtain d where d: "k - i = Suc d" by (cases "k - i") auto
      then have kd: "k - Suc i = d" "Suc i \<le> k" by arith+
      have "occurs_at pat cs d" using l d by (simp add: occurs_at_Cons)
      moreover have "\<not> occurs_at pat cs j" if "j < d" for j
      proof -
        from that d have "Suc j < k - i" by simp
        with l have "\<not> occurs_at pat (c # cs) (Suc j)" by blast
        then show ?thesis by (simp add: occurs_at_Cons)
      qed
      ultimately show ?R using kd by simp
    next
      assume r: ?R
      then have d: "k - i = Suc (k - Suc i)" "i \<le> k" by arith+
      have "occurs_at pat (c # cs) (k - i)" using r d by (simp add: occurs_at_Cons)
      moreover have "\<not> occurs_at pat (c # cs) j" if "j < k - i" for j
      proof (cases j)
        case 0
        with z show ?thesis by simp
      next
        case (Suc j')
        with that d have "j' < k - Suc i" by simp
        with r Suc show ?thesis by (simp add: occurs_at_Cons)
      qed
      ultimately show ?L using d by simp
    qed
    with False Cons.IH [OF Cons.prems, of "Suc i"] show ?thesis by simp
  qed
qed

lemma occurs_at_beyond: "pat \<noteq> [] \<Longrightarrow> length s \<le> j \<Longrightarrow> \<not> occurs_at pat s j"
  by (auto simp: occurs_at_def)

lemma occurs_at_drop: "occurs_at pat (drop m s) j = occurs_at pat s (m + j)"
  by (simp add: occurs_at_def add.commute)

lemma indexOf_None:
  assumes "pat \<noteq> []"
  shows "(indexOf s pat from = None) = (\<forall>j \<ge> from. \<not> occurs_at pat s j)"
proof (cases "from \<le> length s")
  case True
  then have m: "min from (length s) = from" by simp
  have "(\<forall>j. \<not> occurs_at pat s (from + j)) = (\<forall>j \<ge> from. \<not> occurs_at pat s j)"
    by (metis le_add1 le_Suc_ex)
  then show ?thesis
    by (simp add: indexOf_def m indexOf_scan_None [OF assms] occurs_at_drop)
next
  case False
  then have "indexOf s pat from = None" using assms by (simp add: indexOf_def)
  moreover have "\<forall>j \<ge> from. \<not> occurs_at pat s j"
    using False occurs_at_beyond [OF assms] by simp
  ultimately show ?thesis by simp
qed

lemma indexOf_Some:
  assumes "pat \<noteq> []"
  shows "(indexOf s pat from = Some k) =
         (from \<le> k \<and> occurs_at pat s k \<and> (\<forall>j. from \<le> j \<and> j < k \<longrightarrow> \<not> occurs_at pat s j))"
proof (cases "from \<le> length s")
  case True
  then have m: "min from (length s) = from" by simp
  have "(\<forall>j < k - from. \<not> occurs_at pat s (from + j)) = (\<forall>j. from \<le> j \<and> j < k \<longrightarrow> \<not> occurs_at pat s j)"
  proof
    assume a: "\<forall>j < k - from. \<not> occurs_at pat s (from + j)"
    show "\<forall>j. from \<le> j \<and> j < k \<longrightarrow> \<not> occurs_at pat s j"
    proof (intro allI impI)
      fix j assume j: "from \<le> j \<and> j < k"
      then have "j - from < k - from" by arith
      with a have "\<not> occurs_at pat s (from + (j - from))" by blast
      with j show "\<not> occurs_at pat s j" by simp
    qed
  next
    assume a: "\<forall>j. from \<le> j \<and> j < k \<longrightarrow> \<not> occurs_at pat s j"
    show "\<forall>j < k - from. \<not> occurs_at pat s (from + j)"
    proof (intro allI impI)
      fix j assume "j < k - from"
      then have "from \<le> from + j \<and> from + j < k" by arith
      with a show "\<not> occurs_at pat s (from + j)" by blast
    qed
  qed
  then show ?thesis
    by (auto simp: indexOf_def m indexOf_scan_Some [OF assms] occurs_at_drop)
next
  case False
  then have "indexOf s pat from = None" using assms by (simp add: indexOf_def)
  moreover have "\<not> occurs_at pat s k" if "from \<le> k"
    using False that occurs_at_beyond [OF assms, of s k] by simp
  ultimately show ?thesis by auto
qed

lemma occurs_at_single: "occurs_at [c] s i = (i < length s \<and> s ! i = c)"
proof (cases "i < length s")
  case True
  then have "drop i s = s ! i # drop (Suc i) s" by (simp add: Cons_nth_drop_Suc)
  with True show ?thesis by (simp add: occurs_at_def)
next
  case False
  then show ?thesis by (simp add: occurs_at_def)
qed

lemma path_part:
  "substr u 0 (case indexOf u ''?'' 0 of Some i \<Rightarrow> i | None \<Rightarrow> length u) =
   takeWhile (\<lambda>c. c \<noteq> CHR ''?'') u"
proof (cases "indexOf u ''?'' 0")
  case None
  then have "\<forall>j. \<not> (j < length u \<and> u ! j = CHR ''?'')"
    by (simp add: indexOf_None occurs_at_single)
  then have "\<forall>x \<in> set u. x \<noteq> CHR ''?''" by (metis in_set_conv_nth)
  then have tw: "takeWhile (\<lambda>c. c \<noteq> CHR ''?'') u = u" by (simp add: takeWhile_eq_all_conv [THEN iffD2])
  show ?thesis by (simp add: None substr_def tw)
next
  case (Some i)
  then have i: "i < length u" "u ! i = CHR ''?''" "\<forall>j < i. u ! j \<noteq> CHR ''?''"
    by (auto simp: indexOf_Some occurs_at_single)
  have "takeWhile (\<lambda>c. c \<noteq> CHR ''?'') u = take i u"
    by (rule takeWhile_eq_take_P_nth) (use i in auto)
  with Some show ?thesis by (simp add: substr_def)
qed

lemma getProtohost_unfold:
  "getProtohost u =
     (if u = [] \<or> u ! 0 = CHR ''/'' then None
      else case indexOf (takeWhile (\<lambda>c. c \<noteq> CHR ''?'') u) ''://'' 0 of
             Some f \<Rightarrow> Some (case indexOf u ''/'' (3 + f) of Some k \<Rightarrow> take k u | None \<Rightarrow> [])
           | None \<Rightarrow> None)"
  unfolding getProtohost_def Let_def path_part
  by (simp add: substr_def split: option.splits)

text \<open>
  C8, amended. \<^verbatim>\<open>getProtohost\<close> returns \<^verbatim>\<open>undefined\<close> exactly for the empty url, a
  url starting with \<^verbatim>\<open>/\<close>, and a url with no \<^verbatim>\<open>://\<close> in the part before its query
  marker (the whole url when there is none), wherever its first \<^verbatim>\<open>/\<close> stands. For any
  other url, with the first such \<^verbatim>\<open>://\<close> at \<open>f\<close> and the first \<^verbatim>\<open>/\<close> at or after \<open>f + 3\<close>
  at \<open>k\<close>, it returns the first \<open>k\<close> characters.
\<close>

theorem getProtohost_result:
  "(getProtohost u = None) =
     (u = [] \<or> u ! 0 = CHR ''/'' \<or>
      (\<forall>i. \<not> occurs_at ''://'' (takeWhile (\<lambda>c. c \<noteq> CHR ''?'') u) i)) \<and>
   (u \<noteq> [] \<and> u ! 0 \<noteq> CHR ''/'' \<and>
    occurs_at ''://'' (takeWhile (\<lambda>c. c \<noteq> CHR ''?'') u) f \<and>
    (\<forall>j < f. \<not> occurs_at ''://'' (takeWhile (\<lambda>c. c \<noteq> CHR ''?'') u) j) \<and>
    f + 3 \<le> k \<and> k < length u \<and> u ! k = CHR ''/'' \<and>
    (\<forall>j. f + 3 \<le> j \<and> j < k \<longrightarrow> u ! j \<noteq> CHR ''/'') \<longrightarrow>
    getProtohost u = Some (take k u))"
proof (intro conjI impI)
  show "(getProtohost u = None) =
     (u = [] \<or> u ! 0 = CHR ''/'' \<or>
      (\<forall>i. \<not> occurs_at ''://'' (takeWhile (\<lambda>c. c \<noteq> CHR ''?'') u) i))"
  proof (cases "indexOf (takeWhile (\<lambda>c. c \<noteq> CHR ''?'') u) ''://'' 0")
    case None
    then have "\<forall>i. \<not> occurs_at ''://'' (takeWhile (\<lambda>c. c \<noteq> CHR ''?'') u) i"
      by (simp add: indexOf_None)
    with None show ?thesis by (simp add: getProtohost_unfold)
  next
    case (Some f)
    then have "occurs_at ''://'' (takeWhile (\<lambda>c. c \<noteq> CHR ''?'') u) f"
      by (simp add: indexOf_Some)
    with Some show ?thesis by (auto simp: getProtohost_unfold)
  qed
next
  assume a: "u \<noteq> [] \<and> u ! 0 \<noteq> CHR ''/'' \<and>
    occurs_at ''://'' (takeWhile (\<lambda>c. c \<noteq> CHR ''?'') u) f \<and>
    (\<forall>j < f. \<not> occurs_at ''://'' (takeWhile (\<lambda>c. c \<noteq> CHR ''?'') u) j) \<and>
    f + 3 \<le> k \<and> k < length u \<and> u ! k = CHR ''/'' \<and>
    (\<forall>j. f + 3 \<le> j \<and> j < k \<longrightarrow> u ! j \<noteq> CHR ''/'')"
  then have f: "indexOf (takeWhile (\<lambda>c. c \<noteq> CHR ''?'') u) ''://'' 0 = Some f"
    by (simp add: indexOf_Some)
  from a have "indexOf u ''/'' (3 + f) = Some k"
    by (simp add: indexOf_Some occurs_at_single add.commute)
  with a f show "getProtohost u = Some (take k u)"
    by (simp add: getProtohost_unfold)
qed

text \<open>When no \<^verbatim>\<open>/\<close> follows the marker the result is the empty string.\<close>

lemma getProtohost_no_slash:
  "u \<noteq> [] \<Longrightarrow> u ! 0 \<noteq> CHR ''/'' \<Longrightarrow>
   occurs_at ''://'' (takeWhile (\<lambda>c. c \<noteq> CHR ''?'') u) f \<Longrightarrow>
   (\<forall>j < f. \<not> occurs_at ''://'' (takeWhile (\<lambda>c. c \<noteq> CHR ''?'') u) j) \<Longrightarrow>
   (\<forall>j. f + 3 \<le> j \<and> j < length u \<longrightarrow> u ! j \<noteq> CHR ''/'') \<Longrightarrow>
   getProtohost u = Some []"
proof -
  assume a: "u \<noteq> []" "u ! 0 \<noteq> CHR ''/''"
    "occurs_at ''://'' (takeWhile (\<lambda>c. c \<noteq> CHR ''?'') u) f"
    "\<forall>j < f. \<not> occurs_at ''://'' (takeWhile (\<lambda>c. c \<noteq> CHR ''?'') u) j"
    "\<forall>j. f + 3 \<le> j \<and> j < length u \<longrightarrow> u ! j \<noteq> CHR ''/''"
  then have f: "indexOf (takeWhile (\<lambda>c. c \<noteq> CHR ''?'') u) ''://'' 0 = Some f"
    by (simp add: indexOf_Some)
  from a have "indexOf u ''/'' (3 + f) = None"
    by (simp add: indexOf_None occurs_at_single add.commute)
  with a f show ?thesis by (simp add: getProtohost_unfold)
qed

text \<open>
  C8, as stated, fails: the url \<^verbatim>\<open>a/b://c/d\<close> is relative-looking, has no query marker
  and no \<^verbatim>\<open>://\<close> before its first \<^verbatim>\<open>/\<close> (at position 1), yet the result is not
  \<^verbatim>\<open>undefined\<close>.
\<close>

theorem getProtohost_counterexample:
  "''a/b://c/d'' ! 0 \<noteq> CHR ''/'' \<and> ''a/b://c/d'' ! 1 = CHR ''/'' \<and>
   \<not> occurs_at ''://'' ''a/b://c/d'' 0 \<and>
   indexOf ''a/b://c/d'' ''?'' 0 = None \<and>
   getProtohost ''a/b://c/d'' = Some ''a/b://c''"
  by (simp add: occurs_at_def) code_simp

theorem getProtohost_result_witness:
  "getProtohost ''http://example.com/api/x'' = Some ''http://example.com'' \<and>
   getProtohost ''/api/x'' = None \<and> getProtohost ''example.com/x?u=a://b'' = None"
proof -
  let ?u = "''http://example.com/api/x''"
  let ?v = "''example.com/x?u=a://b''"
  have q: "takeWhile (\<lambda>c. c \<noteq> CHR ''?'') ?u = ?u" by simp
  have a: "indexOf ?u ''://'' 0 = Some 4" by code_simp
  have b: "indexOf ?u ''/'' 7 = Some 18" by code_simp
  have a': "occurs_at ''://'' ?u 4 \<and> (\<forall>j<4. \<not> occurs_at ''://'' ?u j)"
    using a by (simp add: indexOf_Some)
  have b': "18 < length ?u \<and> ?u ! 18 = CHR ''/'' \<and> (\<forall>j. 7 \<le> j \<and> j < 18 \<longrightarrow> ?u ! j \<noteq> CHR ''/'')"
    using b indexOf_Some [of "''/''" ?u 7 18] by (simp add: occurs_at_single)
  have c: "indexOf (takeWhile (\<lambda>c. c \<noteq> CHR ''?'') ?v) ''://'' 0 = None" by code_simp
  have c': "\<forall>i. \<not> occurs_at ''://'' (takeWhile (\<lambda>c. c \<noteq> CHR ''?'') ?v) i"
    using c indexOf_None [of "''://''" "takeWhile (\<lambda>c. c \<noteq> CHR ''?'') ?v" 0] by simp
  show ?thesis
    using getProtohost_result [of ?u 4 18] getProtohost_result [of "''/api/x''"] getProtohost_result [of ?v] a' b' c' q
    by simp
qed
section \<open>The trace of a dispatch\<close>

lemma restore_trace: "trace (restore ph w) = trace w"
  by (simp add: restore_def Let_def)
lemma trim_trace: "trace (trim ph rt w) = trace w"
  by (simp add: trim_def Let_def)
lemma advanced_trace: "trace (advanced ph w) = trace w"
  by (simp add: advanced_def restore_trace)
lemma entered_trace:
  "trace (entered ph rt path w m rq') =
   trace w @ (case m of None \<Rightarrow> []
              | Some how \<Rightarrow> [Invoked (index w) path how (req (trim ph rt (advanced ph w)))])"
  by (simp add: entered_def Let_def trim_trace advanced_trace)
lemma restore_queue: "queue (restore ph w) = queue w"
  by (simp add: restore_def Let_def)
lemma trim_queue: "queue (trim ph rt w) = queue w"
  by (simp add: trim_def Let_def)
lemma advanced_queue: "queue (advanced ph w) = queue w"
  by (simp add: advanced_def restore_queue)
lemma entered_queue: "queue (entered ph rt path w m rq') = queue w"
  by (simp add: entered_def Let_def trim_queue advanced_queue)

lemma next_err_trace:
  "ev \<in> set (trace (next_err pp stk ph w err)) \<Longrightarrow>
   ev \<in> set (trace w) \<or>
   (\<exists>i p how rq. ev = Invoked i p how rq \<and> index w \<le> i \<and> i < length stk \<and>
      route_matches (route (stk ! i)) p)"
proof (induction w err rule: walk_induct [where stk = stk and pp = pp and ph = ph])
  case (End w err)
  then show ?case by (simp add: next_err_end defer_done_def advanced_trace)
next
  case (Skip w err)
  from Skip.IH [OF Skip.prems [unfolded next_err_skip [OF Skip.hyps]]]
  show ?case by (auto simp: advanced_trace advanced_index)
next
  case (Call w err m st rq')
  let ?E = "entered ph (route (stk ! index w)) (path_of pp (req (restore ph w))) w m rq'"
  have in_E: "ev \<in> set (trace ?E) \<Longrightarrow> ?case"
    using Call.hyps(1,2) by (cases m) (auto simp: entered_trace)
  show ?case
  proof (cases st)
    case Stop
    with Call.prems have "ev \<in> set (trace ?E)"
      by (simp add: next_err_call [OF Call.hyps])
    then show ?thesis by (rule in_E)
  next
    case (Advance e)
    with Call.prems have "ev \<in> set (trace (next_err pp stk ph ?E e))"
      by (simp add: next_err_call [OF Call.hyps])
    from Call.IH [OF Advance this] show ?thesis
      using in_E by (auto simp: entered_index)
  qed
qed

lemma route_matches_iff: "route_matches rt path = path_under rt path"
  by (auto simp: route_matches_def path_under_def substr_def)

text \<open>
  C1. In the trace of a dispatch every invocation is of a layer of the stack whose route
  the path lies under, where the path is the one the walker computed from the request
  url for that layer (line 147). At an advance where the path of the current url does
  not lie under the route of the layer at the index, that layer's handler is not
  invoked, in this advance or later. A handler mounted at \<^verbatim>\<open>/admin\<close> is invoked for the
  paths \<^verbatim>\<open>/admin\<close>, \<^verbatim>\<open>/admin/\<close>, \<^verbatim>\<open>/admin/x\<close> and \<^verbatim>\<open>/admin.json\<close>, and not for
  \<^verbatim>\<open>/administration\<close>.
\<close>

theorem invoked_only_on_match:
  "(Invoked i p how rq \<in> set (trace (proto_handle pp this r0)) \<longrightarrow>
      i < length (stack this) \<and> path_under (route (stack this ! i)) p) \<and>
   (index w < length stk \<and>
    \<not> path_under (route (stk ! index w)) (path_of pp (req (restore ph w))) \<and>
    Invoked (index w) p how rq \<in> set (trace (next_err pp stk ph w err)) \<longrightarrow>
      Invoked (index w) p how rq \<in> set (trace w)) \<and>
   trace (proto_handle pathname (use pathname createServer (Some ''/admin'') (Fn pass))
      \<lparr>url = ''/admin'', originalUrl = None\<rparr>) =
     [Invoked 0 ''/admin'' RequestHandler \<lparr>url = ''/'', originalUrl = Some ''/admin''\<rparr>] \<and>
   trace (proto_handle pathname (use pathname createServer (Some ''/admin'') (Fn pass))
      \<lparr>url = ''/admin/'', originalUrl = None\<rparr>) =
     [Invoked 0 ''/admin/'' RequestHandler \<lparr>url = ''/'', originalUrl = Some ''/admin/''\<rparr>] \<and>
   trace (proto_handle pathname (use pathname createServer (Some ''/admin'') (Fn pass))
      \<lparr>url = ''/admin/x'', originalUrl = None\<rparr>) =
     [Invoked 0 ''/admin/x'' RequestHandler \<lparr>url = ''/x'', originalUrl = Some ''/admin/x''\<rparr>] \<and>
   trace (proto_handle pathname (use pathname createServer (Some ''/admin'') (Fn pass))
      \<lparr>url = ''/admin.json'', originalUrl = None\<rparr>) =
     [Invoked 0 ''/admin.json'' RequestHandler
        \<lparr>url = ''/.json'', originalUrl = Some ''/admin.json''\<rparr>] \<and>
   trace (proto_handle pathname (use pathname createServer (Some ''/admin'') (Fn pass))
      \<lparr>url = ''/administration'', originalUrl = None\<rparr>) = []"
proof (intro conjI impI)
  assume a: "Invoked i p how rq \<in> set (trace (proto_handle pp this r0))"
  have m: "i < length (stack this) \<and> route_matches (route (stack this ! i)) p"
    using next_err_trace [OF a [unfolded proto_handle_def Let_def]] by simp
  then show "i < length (stack this)" by simp
  from m show "path_under (route (stack this ! i)) p"
    by (simp add: route_matches_iff)
next
  assume a: "index w < length stk \<and>
    \<not> path_under (route (stk ! index w)) (path_of pp (req (restore ph w))) \<and>
    Invoked (index w) p how rq \<in> set (trace (next_err pp stk ph w err))"
  then have "next_err pp stk ph w err = next_err pp stk ph (advanced ph w) err"
    by (simp add: next_err_skip route_matches_iff)
  with a have "Invoked (index w) p how rq \<in> set (trace (next_err pp stk ph (advanced ph w) err))"
    by simp
  from next_err_trace [OF this] show "Invoked (index w) p how rq \<in> set (trace w)"
    by (simp add: advanced_trace advanced_index)
qed code_simp+

theorem invoked_only_on_match_witness:
  "Invoked 0 ''/Admin.json'' RequestHandler
      \<lparr>url = ''/.json'', originalUrl = Some ''/Admin.json''\<rparr>
     \<in> set (trace (proto_handle pathname (use pathname createServer (Some ''/admin'') (Fn pass))
      \<lparr>url = ''/Admin.json'', originalUrl = None\<rparr>)) \<and>
   path_under ''/admin'' ''/Admin.json''"
proof -
  have a: "Invoked 0 ''/Admin.json'' RequestHandler
      \<lparr>url = ''/.json'', originalUrl = Some ''/Admin.json''\<rparr>
     \<in> set (trace (proto_handle pathname (use pathname createServer (Some ''/admin'') (Fn pass))
      \<lparr>url = ''/Admin.json'', originalUrl = None\<rparr>))"
    by code_simp
  have s: "stack (use pathname createServer (Some ''/admin'') (Fn pass)) ! 0 =
             \<lparr>route = ''/admin'', handle = pass\<rparr>"
    by (simp add: use_stack createServer_def)
  show ?thesis
    using a s invoked_only_on_match [of 0 "''/Admin.json''" RequestHandler
       "\<lparr>url = ''/.json'', originalUrl = Some ''/Admin.json''\<rparr>"
       pathname "use pathname createServer (Some ''/admin'') (Fn pass)"
       "\<lparr>url = ''/Admin.json'', originalUrl = None\<rparr>"]
    by simp
qed

section \<open>Trimming and restoring the url\<close>

lemma restore_idem: "restore ph (restore ph w) = restore ph w"
  by (simp add: restore_def Let_def)

lemma next_err_restore: "next_err pp stk ph w err = next_err pp stk ph (restore ph w) err"
  by (subst next_err.simps, subst (2) next_err.simps) (simp add: restore_idem)

lemma restore_clean: "removed w = [] \<Longrightarrow> \<not> slashAdded w \<Longrightarrow> restore ph w = w"
  by (simp add: restore_def Let_def)

lemma restore_is_clean: "removed (restore ph w) = [] \<and> \<not> slashAdded (restore ph w)"
  by (simp add: restore_def Let_def)

text \<open>
  C2, as stated, fails. The protohost is computed once, from the url the dispatch
  starts with (line 110), and lines 133 and 169 cut the url by lengths. For the request
  \<^verbatim>\<open>/api/x\<close> the protohost is empty; the first handler sets the url to
  \<^verbatim>\<open>http://other.com/api/x\<close>, whose path \<^verbatim>\<open>/api/x\<close> matches the layer mounted at
  \<^verbatim>\<open>/api\<close>. Its handler sees \<^verbatim>\<open>/://other.com/api/x\<close>: the four characters trimmed are
  \<^verbatim>\<open>http\<close>, not the route. The url is then restored as \<^verbatim>\<open>/api://other.com/api/x\<close>, and
  the third layer is tested on it: scheme and authority of the absolute-form url are
  lost.
\<close>

theorem trim_rewritten_url_counterexample:
  "trace (proto_handle pathname
     (use pathname
        (use pathname
           (use pathname createServer None (Fn (rewrite_to ''http://other.com/api/x'')))
           (Some ''/api'') (Fn pass))
        None (Fn pass))
     \<lparr>url = ''/api/x'', originalUrl = None\<rparr>) =
     [Invoked 0 ''/api/x'' RequestHandler \<lparr>url = ''/api/x'', originalUrl = Some ''/api/x''\<rparr>,
      Invoked 1 ''/api/x'' RequestHandler
        \<lparr>url = ''/://other.com/api/x'', originalUrl = Some ''/api/x''\<rparr>,
      Invoked 2 ''/api://other.com/api/x'' RequestHandler
        \<lparr>url = ''/api://other.com/api/x'', originalUrl = Some ''/api/x''\<rparr>] \<and>
   getProtohost ''/api/x'' = None \<and>
   pathname ''http://other.com/api/x'' = Some ''/api/x'' \<and>
   take (length ''/api/x'') ''http://other.com/api/x'' \<noteq> ''/api/x''"
  by code_simp

text \<open>
  C2, amended. At an advance that starts with nothing removed, the layer at the index
  has a route \<open>R\<close> that is neither empty nor \<^verbatim>\<open>/\<close> and matches, and its handler goes on
  with \<^verbatim>\<open>next(e)\<close>. Then the request passed to \<^verbatim>\<open>call\<close> (and so to the handler) has
  the url \<open>ph @ rest\<close>, where \<open>rest\<close> is the url after as many characters as the
  protohost \<open>ph\<close> and \<open>R\<close> have, with a slash put in front when \<open>ph\<close> is empty and \<open>rest\<close>
  does not start with one. The following advance is the advance from the state in
  which nothing is removed and the url is \<open>ph @ R @\<close> what follows the first
  \<open>length ph\<close> characters of the url the handler left (without the synthetic slash):
  \<open>ph @ R @ rest\<close> when the handler left the url as it saw it. Provided the url at the
  test still starts with \<open>ph\<close> and the path is what follows \<open>ph\<close> in it, the url is
  \<open>ph\<close>, then the route up to case, then \<open>rest\<close>: what is trimmed is the route, what the
  handler sees and what is restored keep the protohost in front, and the restored url
  is the url tested with the route in its registered case. Every advance restores
  first (\<open>next_err_restore\<close>), and after that nothing is removed
  (\<open>restore_is_clean\<close>): the start state of the statement is the state in which every
  layer is tested.
\<close>

theorem trim_and_restore:
  assumes clean: "removed w = []" "\<not> slashAdded w"
    and i: "index w < length stk"
    and R: "R = route (stk ! index w)" "R \<noteq> []" "R \<noteq> ''/''"
    and path: "path = path_of pp (req w)"
    and match: "route_matches R path"
    and rest: "rest = drop (length ph + length R) (url (req w))"
    and slash: "slash = (ph = [] \<and> (rest = [] \<or> rest ! 0 \<noteq> CHR ''/''))"
    and seen: "seen = (req w)\<lparr>url := (if slash then CHR ''/'' # rest else ph @ rest)\<rparr>"
    and cl: "call (handle (stk ! index w)) R err seen = (m, Advance e, rq')"
  shows "req (trim ph R (advanced ph w)) = seen \<and>
         next_err pp stk ph w err =
           next_err pp stk ph
             (w\<lparr>index := Suc (index w),
                req := rq'\<lparr>url := ph @ R @ drop (length ph) (if slash then drop 1 (url rq') else url rq')\<rparr>,
                trace := trace w @ (case m of None \<Rightarrow> [] | Some how \<Rightarrow> [Invoked (index w) path how seen])\<rparr>) e \<and>
         (url rq' = url seen \<longrightarrow>
            ph @ R @ drop (length ph) (if slash then drop 1 (url rq') else url rq') = ph @ R @ rest) \<and>
         (take (length ph) (url (req w)) = ph \<and> take (length path) (drop (length ph) (url (req w))) = path \<longrightarrow>
            url (req w) = ph @ take (length R) (drop (length ph) (url (req w))) @ rest \<and>
            toLowerCase (take (length R) (drop (length ph) (url (req w)))) = toLowerCase R)"
proof (intro conjI impI)
  have adv: "advanced ph w = w\<lparr>index := Suc (index w)\<rparr>"
    by (simp add: advanced_def restore_clean [OF clean])
  show tr: "req (trim ph R (advanced ph w)) = seen"
    using R(2,3) clean
    by (cases "ph = []")
       (simp_all add: advanced_def restore_clean trim_def Let_def seen slash rest substr_from_def)
  have rw: "restore ph w = w" by (rule restore_clean [OF clean])
  have "next_err pp stk ph w err = next_err pp stk ph (entered ph R path w m rq') e"
    using next_err_call [of w stk "pp" ph err m "Advance e" rq'] i match cl tr
    by (simp add: R(1) path rw)
  also have "\<dots> = next_err pp stk ph (restore ph (entered ph R path w m rq')) e"
    by (rule next_err_restore)
  also have "restore ph (entered ph R path w m rq') =
     w\<lparr>index := Suc (index w),
                req := rq'\<lparr>url := ph @ R @ drop (length ph) (if slash then drop 1 (url rq') else url rq')\<rparr>,
                trace := trace w @ (case m of None \<Rightarrow> [] | Some how \<Rightarrow> [Invoked (index w) path how seen])\<rparr>"
  proof -
    let ?T = "trim ph R (advanced ph w)"
    have T: "index ?T = Suc (index w)" "removed ?T = R" "slashAdded ?T = slash"
      "trace ?T = trace w" "queue ?T = queue w"
      using R(2,3) clean
      by (cases "ph = []"; simp add: advanced_def restore_clean trim_def Let_def slash rest
            substr_from_def)+
    show ?thesis
      using R(2) clean
      by (intro walker.equality)
         (simp_all add: entered_def Let_def restore_def T tr substr_from_def cong: option.case_cong)
  qed
  finally show "next_err pp stk ph w err =
           next_err pp stk ph
             (w\<lparr>index := Suc (index w),
                req := rq'\<lparr>url := ph @ R @ drop (length ph) (if slash then drop 1 (url rq') else url rq')\<rparr>,
                trace := trace w @ (case m of None \<Rightarrow> [] | Some how \<Rightarrow> [Invoked (index w) path how seen])\<rparr>) e" .
next
  assume "url rq' = url seen"
  then show "ph @ R @ drop (length ph) (if slash then drop 1 (url rq') else url rq') = ph @ R @ rest"
    by (auto simp: seen slash)
next
  assume a: "take (length ph) (url (req w)) = ph \<and> take (length path) (drop (length ph) (url (req w))) = path"
  let ?u = "url (req w)"
  from match have t: "take (length R) (toLowerCase path) = toLowerCase R"
    by (simp add: route_matches_def substr_def)
  then have "length (take (length R) (toLowerCase path)) = length (toLowerCase R)" by simp
  then have len: "length R \<le> length path" by (simp add: toLowerCase_def)
  have "take (length R) path = take (length R) (take (length path) (drop (length ph) ?u))"
    using a by simp
  also have "\<dots> = take (length R) (drop (length ph) ?u)"
    using len by (simp add: min_def)
  finally have Rp: "take (length R) path = take (length R) (drop (length ph) ?u)" .
  have "?u = ph @ drop (length ph) ?u"
    using a append_take_drop_id [of "length ph" ?u] by simp
  also have "drop (length ph) ?u = take (length R) (drop (length ph) ?u) @ rest"
    unfolding rest by (metis append_take_drop_id drop_drop add.commute)
  finally show "?u = ph @ take (length R) (drop (length ph) ?u) @ rest" .
  show "toLowerCase (take (length R) (drop (length ph) ?u)) = toLowerCase R"
    using t Rp by (simp add: toLowerCase_def take_map)
qed


theorem trim_and_restore_witness:
  "req (trim ''http://example.com'' ''/api''
        (advanced ''http://example.com''
           \<lparr>index = 0, removed = [], slashAdded = False,
              req = \<lparr>url = ''http://example.com/api/x'', originalUrl = Some ''http://example.com/api/x''\<rparr>,
              trace = [], queue = []\<rparr>)) =
     \<lparr>url = ''http://example.com/x'', originalUrl = Some ''http://example.com/api/x''\<rparr> \<and>
   next_err pathname [\<lparr>route = ''/api'', handle = pass\<rparr>] ''http://example.com''
      \<lparr>index = 0, removed = [], slashAdded = False,
         req = \<lparr>url = ''http://example.com/api/x'', originalUrl = Some ''http://example.com/api/x''\<rparr>,
         trace = [], queue = []\<rparr> JUndefined =
   next_err pathname [\<lparr>route = ''/api'', handle = pass\<rparr>] ''http://example.com''
      \<lparr>index = 1, removed = [], slashAdded = False,
         req = \<lparr>url = ''http://example.com/api/x'', originalUrl = Some ''http://example.com/api/x''\<rparr>,
         trace = [Invoked 0 ''/api/x'' RequestHandler
                    \<lparr>url = ''http://example.com/x'', originalUrl = Some ''http://example.com/api/x''\<rparr>],
         queue = []\<rparr> JUndefined \<and>
   take (length ''http://example.com'') ''http://example.com/api/x'' = ''http://example.com'' \<and>
   take (length ''/api/x'') (drop (length ''http://example.com'') ''http://example.com/api/x'') =
     ''/api/x'' \<and>
   ''http://example.com/api/x'' =
     ''http://example.com'' @
     take (length ''/api'') (drop (length ''http://example.com'') ''http://example.com/api/x'') @
     ''/x'' \<and>
   toLowerCase (take (length ''/api'')
      (drop (length ''http://example.com'') ''http://example.com/api/x'')) = toLowerCase ''/api''"
proof -
  let ?ph = "''http://example.com''"
  let ?rq = "\<lparr>url = ''http://example.com/api/x'', originalUrl = Some ''http://example.com/api/x''\<rparr>"
  let ?seen = "\<lparr>url = ''http://example.com/x'', originalUrl = Some ''http://example.com/api/x''\<rparr>"
  let ?w = "\<lparr>index = 0, removed = [], slashAdded = False, req = ?rq, trace = [], queue = []\<rparr>"
  let ?stk = "[\<lparr>route = ''/api'', handle = pass\<rparr>]"
  have 1: "removed ?w = []" "\<not> slashAdded ?w" "index ?w < length ?stk" by simp_all
  have 2: "''/api'' = route (?stk ! index ?w)" "''/api'' \<noteq> []" "''/api'' \<noteq> ''/''" by simp_all
  have 3: "''/api/x'' = path_of pathname (req ?w)" by code_simp
  have 4: "route_matches ''/api'' ''/api/x''" by code_simp
  have 5: "''/x'' = drop (length ?ph + length ''/api'') (url (req ?w))" by simp
  have 6: "False = (?ph = [] \<and> (''/x'' = [] \<or> ''/x'' ! 0 \<noteq> CHR ''/''))" by simp
  have 7: "?seen = (req ?w)\<lparr>url := (if False then CHR ''/'' # ''/x'' else ?ph @ ''/x'')\<rparr>" by simp
  have 8: "call (handle (?stk ! index ?w)) ''/api'' JUndefined ?seen =
             (Some RequestHandler, Advance JUndefined, ?seen)"
    by (simp add: call_def hasError_def pass_def run_handler_def)
  show ?thesis
    using trim_and_restore [OF 1 2 3 4 5 6 7 8] by simp
qed

section \<open>Thrown errors\<close>

lemma call_throws:
  "fst (call h rt err rq) = Some how \<Longrightarrow>
   body h (case how of ErrorHandler x \<Rightarrow> Some x | RequestHandler \<Rightarrow> None) rq = (Throws e, rq') \<Longrightarrow>
   call h rt err rq = (Some how, Advance e, rq')"
  by (simp add: call_def Let_def run_handler_fst split: if_splits)
     (auto simp: run_handler_def)

lemma example_trace:
  assumes B: "arity B = 4" and e: "hasError e"
  shows "trace (proto_handle pathname
           (use pathname (use pathname createServer (Some ''/'') (Fn (thrower e))) (Some ''/x'') (Fn B))
           \<lparr>url = ''/x'', originalUrl = None\<rparr>) =
         [Invoked 0 ''/x'' RequestHandler \<lparr>url = ''/x'', originalUrl = Some ''/x''\<rparr>,
          Invoked 1 ''/x'' (ErrorHandler e) \<lparr>url = ''/'', originalUrl = Some ''/x''\<rparr>]"
proof -
  let ?stk = "[\<lparr>route = [], handle = thrower e\<rparr>, \<lparr>route = ''/x'', handle = B\<rparr>]"
  let ?rq = "\<lparr>url = ''/x'', originalUrl = Some ''/x''\<rparr>"
  let ?seen = "\<lparr>url = ''/'', originalUrl = Some ''/x''\<rparr>"
  let ?w0 = "\<lparr>index = 0, removed = [], slashAdded = False, req = ?rq, trace = [], queue = []\<rparr>"
  let ?w1 = "\<lparr>index = 1, removed = [], slashAdded = False, req = ?rq,
              trace = [Invoked 0 ''/x'' RequestHandler ?rq], queue = []\<rparr>"
  have stk: "stack (use pathname (use pathname createServer (Some ''/'') (Fn (thrower e))) (Some ''/x'') (Fn B)) = ?stk"
    by (simp add: use_stack createServer_def)
  have ph: "getProtohost ''/x'' = None" by (simp add: getProtohost_def)
  have path: "path_of pathname ?rq = ''/x''"
    by (simp add: path_of_def pathname_def ph)
  have m0: "route_matches [] ''/x''" by (simp add: route_matches_def substr_def toLowerCase_def)
  have m1: "route_matches ''/x'' ''/x''" by code_simp
  have c0: "call (thrower e) [] JUndefined ?rq = (Some RequestHandler, Advance e, ?rq)"
    by (simp add: call_def hasError_def thrower_def run_handler_def)
  have s0: "next_err pathname ?stk [] ?w0 JUndefined = next_err pathname ?stk [] ?w1 e"
    using next_err_call [of ?w0 ?stk pathname "[]" JUndefined "Some RequestHandler" "Advance e" ?rq]
    by (simp add: restore_def advanced_def trim_def Let_def path m0 c0 entered_def)
  obtain st rq' where c1: "call B ''/x'' e ?seen = (Some (ErrorHandler e), st, rq')"
    using B e by (cases "body B (Some e) ?seen"; cases "fst (body B (Some e) ?seen)")
      (auto simp: call_def Let_def run_handler_def)
  let ?w2 = "entered [] ''/x'' ''/x'' ?w1 (Some (ErrorHandler e)) rq'"
  have t2: "trace ?w2 = [Invoked 0 ''/x'' RequestHandler ?rq, Invoked 1 ''/x'' (ErrorHandler e) ?seen]"
    by (simp add: entered_trace advanced_def restore_def trim_def Let_def substr_from_def)
  have s1: "next_err pathname ?stk [] ?w1 e = (case st of Advance x \<Rightarrow> next_err pathname ?stk [] ?w2 x | Stop \<Rightarrow> ?w2)"
    using next_err_call [of ?w1 ?stk pathname "[]" e "Some (ErrorHandler e)" st rq']
    by (cases st)
       (simp_all add: restore_def advanced_def trim_def Let_def path m1 c1 substr_from_def)
  have "trace (next_err pathname ?stk [] ?w1 e) = trace ?w2"
  proof (cases st)
    case Stop
    with s1 show ?thesis by simp
  next
    case (Advance x)
    have "\<not> index ?w2 < length ?stk" by (simp add: entered_index)
    from next_err_end [OF this] Advance s1 show ?thesis
      by (simp add: defer_done_def advanced_trace)
  qed
  with s0 t2 show ?thesis
    by (simp add: proto_handle_def stk ph)
qed

text \<open>
  C5, as stated, fails: with \<^verbatim>\<open>A\<close> mounted at \<^verbatim>\<open>/\<close> throwing \<^verbatim>\<open>null\<close> and the arity-4
  handler \<^verbatim>\<open>B\<close> mounted at \<^verbatim>\<open>/x\<close>, the request \<^verbatim>\<open>/x\<close> invokes \<^verbatim>\<open>A\<close> only; \<^verbatim>\<open>B\<close> is
  skipped and \<^verbatim>\<open>done(null)\<close> is queued.
\<close>

theorem thrown_null_counterexample:
  "trace (proto_handle pathname
           (use pathname (use pathname createServer (Some ''/'') (Fn (thrower JNull)))
              (Some ''/x'') (Fn on_error))
           \<lparr>url = ''/x'', originalUrl = None\<rparr>) =
     [Invoked 0 ''/x'' RequestHandler \<lparr>url = ''/x'', originalUrl = Some ''/x''\<rparr>] \<and>
   arity on_error = 4 \<and>
   queue (proto_handle pathname
           (use pathname (use pathname createServer (Some ''/'') (Fn (thrower JNull)))
              (Some ''/x'') (Fn on_error))
           \<lparr>url = ''/x'', originalUrl = None\<rparr>) = [JNull]"
  by code_simp

text \<open>
  C5, amended. When the invocation of a handler throws, \<^verbatim>\<open>call\<close> catches the exception
  and calls \<^verbatim>\<open>next\<close> with it, so the advance goes on with the exception as the pending
  error. With \<^verbatim>\<open>A\<close> mounted at \<^verbatim>\<open>/\<close> throwing \<open>e\<close> and an arity-4 handler \<^verbatim>\<open>B\<close> mounted at
  \<^verbatim>\<open>/x\<close>, the request \<^verbatim>\<open>/x\<close> invokes \<^verbatim>\<open>B\<close> with \<open>e\<close>, provided \<open>e\<close> is \<^verbatim>\<open>false\<close> or truthy
  (not \<^verbatim>\<open>undefined\<close>, \<^verbatim>\<open>null\<close>, \<^verbatim>\<open>0\<close>, \<^verbatim>\<open>NaN\<close> or the empty string).
\<close>

theorem thrown_error_pending:
  "(fst (call h rt err rq) = Some how \<and>
    body h (case how of ErrorHandler x \<Rightarrow> Some x | RequestHandler \<Rightarrow> None) rq = (Throws e, rq') \<longrightarrow>
      call h rt err rq = (Some how, Advance e, rq')) \<and>
   (index w < length stk \<and>
    route_matches (route (stk ! index w)) (path_of pp (req (restore ph w))) \<and>
    fst (call (handle (stk ! index w)) (route (stk ! index w)) err
          (req (trim ph (route (stk ! index w)) (advanced ph w)))) = Some how \<and>
    body (handle (stk ! index w)) (case how of ErrorHandler x \<Rightarrow> Some x | RequestHandler \<Rightarrow> None)
      (req (trim ph (route (stk ! index w)) (advanced ph w))) = (Throws e, rq') \<longrightarrow>
      next_err pp stk ph w err =
        next_err pp stk ph
          (entered ph (route (stk ! index w)) (path_of pp (req (restore ph w))) w (Some how) rq') e) \<and>
   (arity B = 4 \<and> e \<notin> {JUndefined, JNull, JNum 0, JNaN, JStr []} \<longrightarrow>
      trace (proto_handle pathname
           (use pathname (use pathname createServer (Some ''/'') (Fn (thrower e))) (Some ''/x'') (Fn B))
           \<lparr>url = ''/x'', originalUrl = None\<rparr>) =
         [Invoked 0 ''/x'' RequestHandler \<lparr>url = ''/x'', originalUrl = Some ''/x''\<rparr>,
          Invoked 1 ''/x'' (ErrorHandler e) \<lparr>url = ''/'', originalUrl = Some ''/x''\<rparr>])"
proof (intro conjI impI)
  assume "fst (call h rt err rq) = Some how \<and>
    body h (case how of ErrorHandler x \<Rightarrow> Some x | RequestHandler \<Rightarrow> None) rq = (Throws e, rq')"
  then show "call h rt err rq = (Some how, Advance e, rq')"
    by (simp add: call_throws)
next
  assume a: "index w < length stk \<and>
    route_matches (route (stk ! index w)) (path_of pp (req (restore ph w))) \<and>
    fst (call (handle (stk ! index w)) (route (stk ! index w)) err
          (req (trim ph (route (stk ! index w)) (advanced ph w)))) = Some how \<and>
    body (handle (stk ! index w)) (case how of ErrorHandler x \<Rightarrow> Some x | RequestHandler \<Rightarrow> None)
      (req (trim ph (route (stk ! index w)) (advanced ph w))) = (Throws e, rq')"
  then have "call (handle (stk ! index w)) (route (stk ! index w)) err
          (req (trim ph (route (stk ! index w)) (advanced ph w))) = (Some how, Advance e, rq')"
    by (simp add: call_throws)
  with a next_err_call [of w stk pp ph err "Some how" "Advance e" rq']
  show "next_err pp stk ph w err =
        next_err pp stk ph
          (entered ph (route (stk ! index w)) (path_of pp (req (restore ph w))) w (Some how) rq') e"
    by simp
next
  assume "arity B = 4 \<and> e \<notin> {JUndefined, JNull, JNum 0, JNaN, JStr []}"
  then show "trace (proto_handle pathname
           (use pathname (use pathname createServer (Some ''/'') (Fn (thrower e))) (Some ''/x'') (Fn B))
           \<lparr>url = ''/x'', originalUrl = None\<rparr>) =
         [Invoked 0 ''/x'' RequestHandler \<lparr>url = ''/x'', originalUrl = Some ''/x''\<rparr>,
          Invoked 1 ''/x'' (ErrorHandler e) \<lparr>url = ''/'', originalUrl = Some ''/x''\<rparr>]"
    by (simp add: example_trace hasError_iff)
qed

theorem thrown_error_pending_witness:
  "call (thrower (JObj 1)) [] JUndefined \<lparr>url = ''/x'', originalUrl = None\<rparr> =
     (Some RequestHandler, Advance (JObj 1), \<lparr>url = ''/x'', originalUrl = None\<rparr>) \<and>
   trace (proto_handle pathname
           (use pathname (use pathname createServer (Some ''/'') (Fn (thrower (JObj 1))))
              (Some ''/x'') (Fn on_error))
           \<lparr>url = ''/x'', originalUrl = None\<rparr>) =
         [Invoked 0 ''/x'' RequestHandler \<lparr>url = ''/x'', originalUrl = Some ''/x''\<rparr>,
          Invoked 1 ''/x'' (ErrorHandler (JObj 1)) \<lparr>url = ''/'', originalUrl = Some ''/x''\<rparr>]"
proof -
  have f: "fst (call (thrower (JObj 1)) [] JUndefined \<lparr>url = ''/x'', originalUrl = None\<rparr>) =
             Some RequestHandler"
    by (simp add: call_def hasError_def thrower_def run_handler_fst)
  have b: "body (thrower (JObj 1)) None \<lparr>url = ''/x'', originalUrl = None\<rparr> =
             (Throws (JObj 1), \<lparr>url = ''/x'', originalUrl = None\<rparr>)"
    by (simp add: thrower_def)
  have a: "arity on_error = 4" by (simp add: on_error_def)
  show ?thesis
    using f b a
      thrown_error_pending [of "thrower (JObj 1)" "[]" JUndefined
        "\<lparr>url = ''/x'', originalUrl = None\<rparr>" RequestHandler "JObj 1"
        "\<lparr>url = ''/x'', originalUrl = None\<rparr>" _ _ _ _ on_error]
    by simp
qed

section \<open>The terminal handler\<close>

lemma next_err_queue:
  "index w \<le> length stk \<Longrightarrow>
   (length stk < index (next_err pp stk ph w err) \<longrightarrow>
      (\<exists>e. queue (next_err pp stk ph w err) = queue w @ [e])) \<and>
   (\<not> length stk < index (next_err pp stk ph w err) \<longrightarrow>
      queue (next_err pp stk ph w err) = queue w)"
proof (induction w err rule: walk_induct [where stk = stk and pp = pp and ph = ph])
  case (End w err)
  then show ?case
    by (simp add: next_err_end defer_done_def advanced_queue advanced_index)
next
  case (Skip w err)
  then show ?case by (simp add: next_err_skip advanced_queue advanced_index)
next
  case (Call w err m st rq')
  show ?case
  proof (cases st)
    case Stop
    with Call.hyps(1) show ?thesis
      by (simp add: next_err_call [OF Call.hyps] entered_queue entered_index)
  next
    case (Advance e)
    with Call.IH [OF Advance] Call.hyps(1) show ?thesis
      by (simp add: next_err_call [OF Call.hyps] entered_queue entered_index)
  qed
qed

lemma proto_handle_queue:
  "(length (stack this) < index (proto_handle pp this rq) \<longrightarrow>
      (\<exists>e. queue (proto_handle pp this rq) = [e])) \<and>
   (\<not> length (stack this) < index (proto_handle pp this rq) \<longrightarrow>
      queue (proto_handle pp this rq) = [])"
proof -
  let ?w = "\<lparr>index = 0, removed = [], slashAdded = False,
             req = rq\<lparr>originalUrl :=
                     (case originalUrl rq of
                        None \<Rightarrow> Some (url rq)
                      | Some orig \<Rightarrow> if orig \<noteq> [] then Some orig else Some (url rq))\<rparr>,
             trace = [], queue = []\<rparr>"
  have "index ?w \<le> length (stack this)" by simp
  from next_err_queue [OF this] show ?thesis
    by (simp add: proto_handle_def Let_def)
qed

lemma call_Stop:
  "call h rt err rq = (m, Stop, rq') \<Longrightarrow> \<exists>args. fst (body h args rq) = Returns"
  by (auto simp: call_def Let_def run_handler_def split: if_splits prod.splits outcome.splits)
     (metis fst_conv)+

lemma next_err_exhausts:
  assumes k: "\<forall>l \<in> set stk. \<forall>args r. fst (body (handle l) args r) \<noteq> Returns"
  shows "index w \<le> length stk \<Longrightarrow> length stk < index (next_err pp stk ph w err)"
proof (induction w err rule: walk_induct [where stk = stk and pp = pp and ph = ph])
  case (End w err)
  then show ?case by (simp add: next_err_end defer_done_def advanced_index)
next
  case (Skip w err)
  then show ?case by (simp add: next_err_skip advanced_index)
next
  case (Call w err m st rq')
  show ?case
  proof (cases st)
    case Stop
    with call_Stop [of "handle (stk ! index w)"] Call.hyps(3) k Call.hyps(1)
    show ?thesis by (metis nth_mem)
  next
    case (Advance e)
    with Call.IH [OF Advance] Call.hyps(1) show ?thesis
      by (simp add: next_err_call [OF Call.hyps] entered_index)
  qed
qed

text \<open>
  C6. An advance that finds the index past the end of the stack only queues the call
  \<^verbatim>\<open>done(err)\<close>, with the error it was called with: it invokes no handler and does not
  call \<^verbatim>\<open>done\<close> itself. A dispatch never contains the call of \<^verbatim>\<open>done\<close>; when its index
  has passed the end of the stack exactly one call is queued, which the next turn of
  the event loop runs, once; otherwise none is queued. When no handler of the stack
  returns without continuing, the index does pass the end.
\<close>

theorem terminal_deferred_once:
  "(\<not> index w < length stk \<longrightarrow>
      next_err pp stk ph w err = defer_done err (advanced ph w) \<and>
      queue (next_err pp stk ph w err) = queue w @ [err] \<and>
      trace (next_err pp stk ph w err) = trace w) \<and>
   (\<forall>e. Terminal e \<notin> set (trace (proto_handle pp this rq))) \<and>
   (length (stack this) < index (proto_handle pp this rq) \<longrightarrow>
      (\<exists>e. queue (proto_handle pp this rq) = [e] \<and>
           trace (turn (proto_handle pp this rq)) =
             trace (proto_handle pp this rq) @ [Terminal e] \<and>
           queue (turn (proto_handle pp this rq)) = [])) \<and>
   (\<not> length (stack this) < index (proto_handle pp this rq) \<longrightarrow>
      queue (proto_handle pp this rq) = []) \<and>
   ((\<forall>l \<in> set (stack this). \<forall>args r. fst (body (handle l) args r) \<noteq> Returns) \<longrightarrow>
      length (stack this) < index (proto_handle pp this rq))"
proof (intro conjI impI allI)
  assume "\<not> index w < length stk"
  then show "next_err pp stk ph w err = defer_done err (advanced ph w)"
    "queue (next_err pp stk ph w err) = queue w @ [err]"
    "trace (next_err pp stk ph w err) = trace w"
    by (simp_all add: next_err_end defer_done_def advanced_queue advanced_trace)
next
  fix e
  show "Terminal e \<notin> set (trace (proto_handle pp this rq))"
  proof
    assume a: "Terminal e \<in> set (trace (proto_handle pp this rq))"
    from next_err_trace [OF a [unfolded proto_handle_def Let_def]] show False by simp
  qed
next
  assume "length (stack this) < index (proto_handle pp this rq)"
  then obtain e where "queue (proto_handle pp this rq) = [e]"
    using proto_handle_queue [of this pp rq] by blast
  then show "\<exists>e. queue (proto_handle pp this rq) = [e] \<and>
           trace (turn (proto_handle pp this rq)) =
             trace (proto_handle pp this rq) @ [Terminal e] \<and>
           queue (turn (proto_handle pp this rq)) = []"
    by (simp add: turn_def)
next
  assume "\<not> length (stack this) < index (proto_handle pp this rq)"
  then show "queue (proto_handle pp this rq) = []"
    using proto_handle_queue [of this pp rq] by blast
next
  assume k: "\<forall>l \<in> set (stack this). \<forall>args r. fst (body (handle l) args r) \<noteq> Returns"
  show "length (stack this) < index (proto_handle pp this rq)"
    unfolding proto_handle_def Let_def
    by (rule next_err_exhausts [OF k]) simp
qed

theorem terminal_deferred_once_witness:
  "queue (proto_handle pathname
       (use pathname (use pathname createServer (Some ''/'') (Fn (thrower (JObj 1)))) None (Fn pass))
       \<lparr>url = ''/x'', originalUrl = None\<rparr>) = [JObj 1] \<and>
   trace (turn (proto_handle pathname
       (use pathname (use pathname createServer (Some ''/'') (Fn (thrower (JObj 1)))) None (Fn pass))
       \<lparr>url = ''/x'', originalUrl = None\<rparr>)) =
     [Invoked 0 ''/x'' RequestHandler \<lparr>url = ''/x'', originalUrl = Some ''/x''\<rparr>,
      Terminal (JObj 1)]"
proof -
  let ?app = "use pathname (use pathname createServer (Some ''/'') (Fn (thrower (JObj 1))))
                None (Fn pass)"
  let ?W = "proto_handle pathname ?app \<lparr>url = ''/x'', originalUrl = None\<rparr>"
  have k: "\<forall>l \<in> set (stack ?app). \<forall>args r. fst (body (handle l) args r) \<noteq> Returns"
    by (simp add: use_stack createServer_def thrower_def pass_def)
  have t: "trace ?W = [Invoked 0 ''/x'' RequestHandler \<lparr>url = ''/x'', originalUrl = Some ''/x''\<rparr>]"
    by code_simp
  have q: "queue ?W = [JObj 1]" by code_simp
  show ?thesis
    using terminal_deferred_once [of _ _ pathname _ _ ?app "\<lparr>url = ''/x'', originalUrl = None\<rparr>"]
      k t q
    by auto
qed

end
